theory Spec2Isabelle
  imports Main "HOL-Library.Word"
begin

section \<open>String primitives of the host language\<close>

text \<open>
  The query strings handled by \<^verbatim>\<open>fetchAllPages\<close> are JavaScript strings. They are
  modelled as \<^typ>\<open>string\<close>, which covers the characters that the keys, the operators
  and the percent-encoded values of a query are made of; the three primitives the
  function applies to them are
  \<^verbatim>\<open>String.prototype.includes\<close> with a literal needle, the template literal
  \<^verbatim>\<open>${n}\<close> of a positive integer, and \<^verbatim>\<open>String.prototype.replace\<close> with the
  non-global regular expression \<^verbatim>\<open>/searchCriteria\[currentPage\]=\d+/\<close>.
\<close>

fun starts_with :: "string \<Rightarrow> string \<Rightarrow> bool" where
  "starts_with s [] = True"
| "starts_with [] (p # ps) = False"
| "starts_with (c # cs) (p # ps) = (if c = p then starts_with cs ps else False)"

text \<open>\<^verbatim>\<open>s.includes(needle)\<close>: some suffix of \<open>s\<close> starts with the needle.\<close>

fun str_includes :: "string \<Rightarrow> string \<Rightarrow> bool" where
  "str_includes [] needle = starts_with [] needle"
| "str_includes (c # cs) needle =
     (if starts_with (c # cs) needle then True else str_includes cs needle)"

text \<open>\<^verbatim>\<open>\d\<close> of a JavaScript regular expression: the ten ASCII digits.\<close>

definition is_digit :: "char \<Rightarrow> bool" where
  "is_digit c = (c \<in> set ''0123456789'')"

text \<open>The decimal rendering of a non-negative integer, as \<^verbatim>\<open>${n}\<close> produces it.\<close>

definition digit_char :: "nat \<Rightarrow> char" where
  "digit_char d = ''0123456789'' ! (d mod 10)"

function show_nat :: "nat \<Rightarrow> string" where
  "show_nat n =
     (if n < 10 then [digit_char n] else show_nat (n div 10) @ [digit_char (n mod 10)])"
  by pat_completeness auto
termination
  by (relation "measure (\<lambda>n. n)") auto

declare show_nat.simps [simp del]

definition pageSizeKey :: string where
  "pageSizeKey = ''searchCriteria[pageSize]''"

definition currentPageKey :: string where
  "currentPageKey = ''searchCriteria[currentPage]''"

text \<open>
  One attempt of the regular expression \<^verbatim>\<open>/searchCriteria\[currentPage\]=\d+/\<close> at the
  head of \<open>s\<close>: the literal key, an equals sign and a greedy, non-empty run of digits.
  On success the result is what follows the match.
\<close>

definition match_current_page :: "string \<Rightarrow> string option" where
  "match_current_page s =
     (if starts_with s (currentPageKey @ ''='')
      then (case drop (length (currentPageKey @ ''='')) s of
              [] \<Rightarrow> None
            | d # ds \<Rightarrow> if is_digit d then Some (dropWhile is_digit ds) else None)
      else None)"

text \<open>
  \<^verbatim>\<open>s.replace(/searchCriteria\[currentPage\]=\d+/, r)\<close>: the leftmost match is replaced
  by \<open>r\<close> (which holds no \<^verbatim>\<open>$\<close> pattern here); with no match the string is returned
  as it is.
\<close>

fun replace_current_page :: "string \<Rightarrow> string \<Rightarrow> string" where
  "replace_current_page [] r = []"
| "replace_current_page (c # cs) r =
     (case match_current_page (c # cs) of
        Some rest \<Rightarrow> r @ rest
      | None \<Rightarrow> c # replace_current_page cs r)"

text \<open>
  Whether the regular expression matches anywhere in the string
  (\<^verbatim>\<open>/searchCriteria\[currentPage\]=\d+/.test(s)\<close>).
\<close>

fun has_current_page_number :: "string \<Rightarrow> bool" where
  "has_current_page_number [] = False"
| "has_current_page_number (c # cs) =
     (case match_current_page (c # cs) of
        Some rest \<Rightarrow> True
      | None \<Rightarrow> has_current_page_number cs)"

section \<open>The HTTP call primitive and the search result\<close>

text \<open>
  \<^verbatim>\<open>callMagentoApi\<close> either returns the decoded response body or rethrows the error of
  the HTTP client (after writing it to the console, which is not modelled). The body is
  taken to be a JSON object, of which the engine reads two members. \<^verbatim>\<open>total_count\<close>
  is an integer or missing. \<^verbatim>\<open>items\<close> may be any JSON value; the constructors below are
  the shapes that \<^verbatim>\<open>fetchAllPages\<close> tells apart through truthiness,
  \<^verbatim>\<open>Array.isArray\<close> and the \<^verbatim>\<open>length\<close> property. A non-array object carries its
  \<^verbatim>\<open>length\<close> member when it has one; the member is a number, \<^verbatim>\<open>null\<close> or a
  boolean. An object whose \<^verbatim>\<open>length\<close> is a string, an array or an object has no
  counterpart here: comparing it with a number goes through the conversion of strings to
  numbers, which is not modelled.
\<close>

datatype length_member = LengthNumber int | LengthNull | LengthBool bool

datatype error = ApiError string

datatype 'a items_field =
    ItemsAbsent
  | ItemsNull
  | ItemsArray "'a list"
  | ItemsString string
  | ItemsNumber int
  | ItemsBool bool
  | ItemsObject "length_member option"

record 'a search_result =
  total_count :: "int option"
  items :: "'a items_field"

text \<open>
  The remote server, as the engine sees it: the reply to a request may depend on the
  request and on every request issued before it. The argument is the list of the URLs
  requested so far, the current one last.
\<close>

type_synonym 'a server = "string list \<Rightarrow> error + 'a search_result"

text \<open>
  A GET through \<^verbatim>\<open>callMagentoApi\<close>: the request is recorded, and the reply is the
  thrown error or the response data.
\<close>

definition callMagentoApi ::
  "'a server \<Rightarrow> string list \<Rightarrow> string \<Rightarrow> (error + 'a search_result) \<times> string list" where
  "callMagentoApi srv sent endpoint = (srv (sent @ [endpoint]), sent @ [endpoint])"

text \<open>Truthiness of the \<^verbatim>\<open>items\<close> member.\<close>

fun truthy :: "'a items_field \<Rightarrow> bool" where
  "truthy ItemsAbsent = False"
| "truthy ItemsNull = False"
| "truthy (ItemsArray xs) = True"
| "truthy (ItemsString s) = (if s = [] then False else True)"
| "truthy (ItemsNumber n) = (if n = 0 then False else True)"
| "truthy (ItemsBool b) = b"
| "truthy (ItemsObject l) = True"

text \<open>
  \<^verbatim>\<open>responseData.items.length\<close>, read only when \<^verbatim>\<open>items\<close> is truthy: the number of
  elements or of characters, the member of an object, and \<^verbatim>\<open>undefined\<close> (\<open>None\<close>)
  on a number or a boolean.
\<close>

fun items_length :: "'a items_field \<Rightarrow> length_member option" where
  "items_length (ItemsArray xs) = Some (LengthNumber (int (length xs)))"
| "items_length (ItemsString s) = Some (LengthNumber (int (length s)))"
| "items_length (ItemsObject l) = l"
| "items_length other = None"

text \<open>
  \<^verbatim>\<open>v < n\<close> for a number \<open>n\<close>: \<^verbatim>\<open>undefined\<close> compares false, \<^verbatim>\<open>null\<close> and
  \<^verbatim>\<open>false\<close> count as 0 and \<^verbatim>\<open>true\<close> as 1.
\<close>

fun js_less :: "length_member option \<Rightarrow> nat \<Rightarrow> bool" where
  "js_less None n = False"
| "js_less (Some (LengthNumber v)) n = (v < int n)"
| "js_less (Some LengthNull) n = (0 < n)"
| "js_less (Some (LengthBool b)) n = ((if b then 1 else 0) < n)"

section \<open>The paginated fetch engine\<close>

definition pageSize :: nat where
  "pageSize = 100"

text \<open>
  The query string of one iteration (\<^verbatim>\<open>currentPageSearchCriteria\<close>): the page size is
  appended unless its key occurs in the base criteria, the current page is appended
  unless its key occurs, and substituted by the regular expression otherwise.
\<close>

definition add_page_size :: "string \<Rightarrow> string" where
  "add_page_size c =
     (if str_includes c pageSizeKey then c
      else c @ ''&searchCriteria[pageSize]='' @ show_nat pageSize)"

definition set_current_page :: "string \<Rightarrow> nat \<Rightarrow> string" where
  "set_current_page c currentPage =
     (if str_includes c currentPageKey
      then replace_current_page c (''searchCriteria[currentPage]='' @ show_nat currentPage)
      else c @ ''&searchCriteria[currentPage]='' @ show_nat currentPage)"

definition currentPageSearchCriteria :: "string \<Rightarrow> nat \<Rightarrow> string" where
  "currentPageSearchCriteria baseSearchCriteria currentPage =
     set_current_page (add_page_size baseSearchCriteria) currentPage"

definition page_url :: "string \<Rightarrow> string \<Rightarrow> nat \<Rightarrow> string" where
  "page_url endpoint baseSearchCriteria currentPage =
     endpoint @ ''?'' @ currentPageSearchCriteria baseSearchCriteria currentPage"

text \<open>The variables of the loop.\<close>

record 'a loop_state =
  currentPage :: nat
  allItems :: "'a list"
  totalCount :: int

text \<open>
  How a run ends: the function returns the accumulated items, the error of a failed
  call propagates, or the loop is still running when the iteration budget is used up
  (the state it has reached is kept).
\<close>

datatype 'a outcome =
    Returned "'a list"
  | Threw error
  | Unfinished "'a loop_state"

text \<open>
  The body of the \<^verbatim>\<open>do ... while (true)\<close> loop after a successful call: the items are
  appended when they are an array, the total count is taken on page 1, and the loop is
  left (\<open>Inl\<close>) or goes on with the next page (\<open>Inr\<close>).
\<close>

definition on_response :: "'a loop_state \<Rightarrow> 'a search_result \<Rightarrow> 'a list + 'a loop_state" where
  "on_response st responseData =
     (let all = (case items responseData of
                   ItemsArray xs \<Rightarrow> allItems st @ xs
                 | _ \<Rightarrow> allItems st);
          total = (if currentPage st = 1
                   then (case total_count responseData of None \<Rightarrow> 0 | Some n \<Rightarrow> n)
                   else totalCount st)
      in if total \<le> int (length all) then Inl all
         else if truthy (items responseData)
         then (if js_less (items_length (items responseData)) pageSize then Inl all
               else Inr \<lparr>currentPage = currentPage st + 1, allItems = all, totalCount = total\<rparr>)
         else Inl all)"

text \<open>
  The loop, with a budget of iterations: the source loop has no bound, so a run that
  does not leave the loop within the budget is \<open>Unfinished\<close>. The second component is
  the list of the URLs requested, in order.
\<close>

fun fetch_loop ::
  "nat \<Rightarrow> 'a server \<Rightarrow> string \<Rightarrow> string \<Rightarrow> 'a loop_state \<Rightarrow> string list
     \<Rightarrow> 'a outcome \<times> string list" where
  "fetch_loop 0 srv endpoint base st sent = (Unfinished st, sent)"
| "fetch_loop (Suc n) srv endpoint base st sent =
     (case callMagentoApi srv sent (page_url endpoint base (currentPage st)) of
        (Inl e, sent') \<Rightarrow> (Threw e, sent')
      | (Inr responseData, sent') \<Rightarrow>
          (case on_response st responseData of
             Inl all \<Rightarrow> (Returned all, sent')
           | Inr st' \<Rightarrow> fetch_loop n srv endpoint base st' sent'))"

definition fetchAllPages ::
  "nat \<Rightarrow> 'a server \<Rightarrow> string \<Rightarrow> string \<Rightarrow> 'a outcome \<times> string list" where
  "fetchAllPages budget srv endpoint baseSearchCriteria =
     fetch_loop budget srv endpoint baseSearchCriteria
       \<lparr>currentPage = 1, allItems = [], totalCount = 0\<rparr> []"

section \<open>Encoding of filter values\<close>

text \<open>
  Filter values are JavaScript strings, sequences of 16-bit code units.
\<close>

type_synonym code_unit = "16 word"
type_synonym js_string = "code_unit list"

datatype uri_error = URIError

text \<open>
  An ASCII literal as a JavaScript string.
\<close>

definition js_of_string :: "string \<Rightarrow> js_string" where
  "js_of_string s = map (\<lambda>c. of_nat (of_char c)) s"

text \<open>
  The characters that \<^verbatim>\<open>encodeURIComponent\<close> leaves as they are: letters, digits and
  \<^verbatim>\<open>- _ . ! ~ * ' ( )\<close>.
\<close>

definition is_unreserved :: "code_unit \<Rightarrow> bool" where
  "is_unreserved u =
     (unat u < 128 \<and>
      char_of (unat u) \<in> set (''ABCDEFGHIJKLMNOPQRSTUVWXYZabcdefghijklmnopqrstuvwxyz'' @
                               ''0123456789'' @ ''-_.!~*'' @ [CHR 0x27] @ ''()''))"

text \<open>
  Surrogate code units, and the code point of a surrogate pair.
\<close>

definition is_leading_surrogate :: "code_unit \<Rightarrow> bool" where
  "is_leading_surrogate u = (0xD800 \<le> unat u \<and> unat u \<le> 0xDBFF)"

definition is_trailing_surrogate :: "code_unit \<Rightarrow> bool" where
  "is_trailing_surrogate u = (0xDC00 \<le> unat u \<and> unat u \<le> 0xDFFF)"

definition surrogate_pair_to_code_point :: "code_unit \<Rightarrow> code_unit \<Rightarrow> nat" where
  "surrogate_pair_to_code_point lead trail =
     (unat lead - 0xD800) * 0x400 + (unat trail - 0xDC00) + 0x10000"

text \<open>
  The UTF-8 octets of a code point.
\<close>

definition utf8_octets :: "nat \<Rightarrow> nat list" where
  "utf8_octets cp =
     (if cp < 0x80 then [cp]
      else if cp < 0x800 then [0xC0 + cp div 64, 0x80 + cp mod 64]
      else if cp < 0x10000
      then [0xE0 + cp div 4096, 0x80 + cp div 64 mod 64, 0x80 + cp mod 64]
      else [0xF0 + cp div 262144, 0x80 + cp div 4096 mod 64,
            0x80 + cp div 64 mod 64, 0x80 + cp mod 64])"

text \<open>
  An octet as \<^verbatim>\<open>%XX\<close> with two upper-case hexadecimal digits.
\<close>

definition hex_digit :: "nat \<Rightarrow> char" where
  "hex_digit d = ''0123456789ABCDEF'' ! (d mod 16)"

definition percent_octet :: "nat \<Rightarrow> string" where
  "percent_octet b = [CHR ''%'', hex_digit (b div 16), hex_digit (b mod 16)]"

definition percent_octets :: "nat list \<Rightarrow> string" where
  "percent_octets bs = concat (map percent_octet bs)"

text \<open>
  The piece for one code point, followed by the encoding of the rest unless that throws.
\<close>

definition and_then :: "string \<Rightarrow> uri_error + string \<Rightarrow> uri_error + string" where
  "and_then s r = (case r of Inl e \<Rightarrow> Inl e | Inr t \<Rightarrow> Inr (s @ t))"

text \<open>
  \<^verbatim>\<open>encodeURIComponent\<close>, after the algorithm Encode of the language standard: an
  unreserved code unit is copied; any other is read as a code point (a leading surrogate
  must be followed by a trailing one, a trailing one cannot stand first), whose UTF-8
  octets are escaped. An unpaired surrogate throws \<^verbatim>\<open>URIError\<close>.
\<close>

fun encodeURIComponent :: "js_string \<Rightarrow> uri_error + string" where
  "encodeURIComponent [] = Inr []"
| "encodeURIComponent (u # us) =
     (if is_unreserved u then and_then [char_of (unat u)] (encodeURIComponent us)
      else if is_trailing_surrogate u then Inl URIError
      else if is_leading_surrogate u
      then (case us of
              [] \<Rightarrow> Inl URIError
            | t # rest \<Rightarrow>
                if is_trailing_surrogate t
                then and_then (percent_octets (utf8_octets (surrogate_pair_to_code_point u t)))
                       (encodeURIComponent rest)
                else Inl URIError)
      else and_then (percent_octets (utf8_octets (unat u))) (encodeURIComponent us))"









text \<open>\<^verbatim>\<open>Array.prototype.join\<close>.\<close>

fun join :: "string \<Rightarrow> string list \<Rightarrow> string" where
  "join sep [] = []"
| "join sep [x] = x"
| "join sep (x # y # ys) = x @ sep @ join sep (y # ys)"

text \<open>
  \<^verbatim>\<open>formatDateForMagento\<close> and \<^verbatim>\<open>buildDateRangeFilter\<close>. The function
  \<^verbatim>\<open>format\<close> of the date library is not part of the sources and is a parameter: it
  maps a date and a pattern to a string (the dates are the valid ones that the callers
  pass). The field name is inserted as it is; the two formatted dates go through
  \<^verbatim>\<open>encodeURIComponent\<close>, in the order of the array literal.
\<close>

definition formatDateForMagento :: "('d \<Rightarrow> string \<Rightarrow> js_string) \<Rightarrow> 'd \<Rightarrow> js_string" where
  "formatDateForMagento format date = format date ''yyyy-MM-dd HH:mm:ss''"

definition buildDateRangeFilter ::
  "('d \<Rightarrow> string \<Rightarrow> js_string) \<Rightarrow> string \<Rightarrow> 'd \<Rightarrow> 'd \<Rightarrow> uri_error + string" where
  "buildDateRangeFilter format field startDate endDate =
     (let formattedStartDate = formatDateForMagento format startDate;
          formattedEndDate = formatDateForMagento format endDate
      in case encodeURIComponent formattedStartDate of
           Inl e \<Rightarrow> Inl e
         | Inr encodedStart \<Rightarrow>
             (case encodeURIComponent formattedEndDate of
                Inl e \<Rightarrow> Inl e
              | Inr encodedEnd \<Rightarrow>
                  Inr (join ''&''
                    [''searchCriteria[filter_groups][0][filters][0][field]='' @ field,
                     ''searchCriteria[filter_groups][0][filters][0][value]='' @ encodedStart,
                     ''searchCriteria[filter_groups][0][filters][0][condition_type]=gteq'',
                     ''searchCriteria[filter_groups][1][filters][0][field]='' @ field,
                     ''searchCriteria[filter_groups][1][filters][0][value]='' @ encodedEnd,
                     ''searchCriteria[filter_groups][1][filters][0][condition_type]=lteq''])))"



text \<open>
  A formatter for the examples: date 0 is the first second of January 2024, every other
  date the last second of that month.
\<close>

definition ascii_date :: "nat \<Rightarrow> string \<Rightarrow> js_string" where
  "ascii_date date pattern =
     js_of_string (if date = 0 then ''2024-01-01 00:00:00'' else ''2024-01-31 23:59:59'')"

section \<open>Example servers\<close>

text \<open>The value of a leading run of decimal digits.\<close>

fun parse_digits :: "string \<Rightarrow> nat \<Rightarrow> nat" where
  "parse_digits [] acc = acc"
| "parse_digits (c # cs) acc =
     (if is_digit c then parse_digits cs (10 * acc + (of_char c - 48)) else acc)"

text \<open>The number after the first \<^verbatim>\<open>key=\<close> of a query string.\<close>

fun query_number :: "string \<Rightarrow> string \<Rightarrow> nat option" where
  "query_number [] key = None"
| "query_number (c # cs) key =
     (if starts_with (c # cs) (key @ ''='')
      then Some (parse_digits (drop (length key + 1) (c # cs)) 0)
      else query_number cs key)"

text \<open>
  A server that holds a fixed collection and serves it in pages: it reads the page size
  and the page number from the query string of the request, returns that slice of the
  collection and reports the size of the whole collection.
\<close>

definition paged_server :: "'a list \<Rightarrow> 'a server" where
  "paged_server coll sent =
     (if sent = [] then Inl (ApiError ''no request'')
      else (case (query_number (last sent) pageSizeKey,
                  query_number (last sent) currentPageKey) of
              (Some sz, Some page) \<Rightarrow>
                Inr \<lparr>total_count = Some (int (length coll)),
                     items = ItemsArray (take sz (drop ((page - 1) * sz) coll))\<rparr>
            | _ \<Rightarrow> Inl (ApiError ''Bad Request'')))"

text \<open>
  A server that answers the first request with 100 items, the second with 100 and every
  later one with 50, reporting 250 items in total.
\<close>

definition three_page_server :: "nat server" where
  "three_page_server sent =
     (if length sent = 1 then Inr \<lparr>total_count = Some 250, items = ItemsArray [0..<100]\<rparr>
      else if length sent = 2 then Inr \<lparr>total_count = Some 250, items = ItemsArray [100..<200]\<rparr>
      else Inr \<lparr>total_count = Some 250, items = ItemsArray [200..<250]\<rparr>)"

text \<open>A server whose second reply is a failure of the HTTP call.\<close>

definition failing_second_page :: "nat server" where
  "failing_second_page sent =
     (if length sent = 2 then Inl (ApiError ''Service Unavailable'')
      else Inr \<lparr>total_count = Some 250, items = ItemsArray [0..<100]\<rparr>)"

text \<open>
  A server whose \<^verbatim>\<open>items\<close> member is the empty object \<^verbatim>\<open>{}\<close> in every reply,
  and one whose \<^verbatim>\<open>items\<close> member is the empty array.
\<close>

definition object_items_server :: "'a server" where
  "object_items_server sent = Inr \<lparr>total_count = Some 5, items = ItemsObject None\<rparr>"

definition empty_items_server :: "'a server" where
  "empty_items_server sent = Inr \<lparr>total_count = Some 5, items = ItemsArray []\<rparr>"

text \<open>A server that never reports a total count.\<close>

definition no_total_server :: "nat server" where
  "no_total_server sent = Inr \<lparr>total_count = None, items = ItemsArray [0..<100]\<rparr>"

text \<open>
  A server changed so that every reply but the first reports the total count that \<open>g\<close>
  chooses (possibly none); errors and items are as before.
\<close>

definition override_later_total_counts ::
  "(string list \<Rightarrow> int option) \<Rightarrow> 'a server \<Rightarrow> 'a server" where
  "override_later_total_counts g srv sent =
     (if length sent \<le> 1 then srv sent
      else (case srv sent of
              Inl e \<Rightarrow> Inl e
            | Inr r \<Rightarrow> Inr (r\<lparr>total_count := g sent\<rparr>)))"

text \<open>
  A server that answers every request with a full page and reports \<open>c\<close> items in
  total.
\<close>

definition full_pages_server :: "int \<Rightarrow> unit server" where
  "full_pages_server c sent = Inr \<lparr>total_count = Some c, items = ItemsArray (replicate pageSize ())\<rparr>"

text \<open>
  Page \<open>k + 1\<close> of a collection cut into pages of the fixed page size, together with
  the size of the whole collection; and a server that answers its \<open>k + 1\<close>-th request
  with that page.
\<close>

definition page_slice :: "'a list \<Rightarrow> nat \<Rightarrow> 'a search_result" where
  "page_slice coll k =
     \<lparr>total_count = Some (int (length coll)),
      items = ItemsArray (take pageSize (drop (pageSize * k) coll))\<rparr>"

definition counting_server :: "'a list \<Rightarrow> 'a server" where
  "counting_server coll sent = Inr (page_slice coll (length sent - 1))"

text \<open>
  A server of full pages that reports 250 items on its first reply and 7 on every later
  one.
\<close>

definition misreporting_server :: "nat server" where
  "misreporting_server sent =
     Inr \<lparr>total_count = (if length sent = 1 then Some 250 else Some 7),
          items = ItemsArray [0..<100]\<rparr>"

text \<open>The total count that a response stands for: a missing member counts as 0.\<close>

definition first_total :: "'a search_result \<Rightarrow> int" where
  "first_total r = (case total_count r of None \<Rightarrow> 0 | Some n \<Rightarrow> n)"

section \<open>Single steps of the loop\<close>

lemma fetch_loop_throw:
  "srv (sent @ [page_url ep base (currentPage st)]) = Inl e \<Longrightarrow>
   fetch_loop (Suc n) srv ep base st sent =
     (Threw e, sent @ [page_url ep base (currentPage st)])"
  by (simp add: callMagentoApi_def)

lemma fetch_loop_return:
  "srv (sent @ [page_url ep base (currentPage st)]) = Inr r \<Longrightarrow>
   on_response st r = Inl xs \<Longrightarrow>
   fetch_loop (Suc n) srv ep base st sent =
     (Returned xs, sent @ [page_url ep base (currentPage st)])"
  by (simp add: callMagentoApi_def)

lemma fetch_loop_continue:
  "srv (sent @ [page_url ep base (currentPage st)]) = Inr r \<Longrightarrow>
   on_response st r = Inr st' \<Longrightarrow>
   fetch_loop (Suc n) srv ep base st sent =
     fetch_loop n srv ep base st' (sent @ [page_url ep base (currentPage st)])"
  by (simp add: callMagentoApi_def)

text \<open>A budget of \<open>m + n\<close> iterations is a run of \<open>m\<close> followed by a run of \<open>n\<close>.\<close>

lemma fetch_loop_add:
  "fetch_loop (m + n) srv ep base st sent =
     (case fetch_loop m srv ep base st sent of
        (Unfinished st', sent') \<Rightarrow> fetch_loop n srv ep base st' sent'
      | other \<Rightarrow> other)"
proof (induction m arbitrary: st sent)
  case 0
  show ?case by simp
next
  case (Suc m)
  show ?case
    by (simp add: Suc.IH split: prod.splits sum.splits)
qed

lemma on_response_short:
  "items r = ItemsArray xs \<Longrightarrow> length xs < pageSize \<Longrightarrow>
   on_response st r = Inl (allItems st @ xs)"
  by (simp add: on_response_def Let_def)

section \<open>Termination on a short first page\<close>

text \<open>
  Claim C3. When the first response carries an \<^verbatim>\<open>items\<close> array with fewer elements
  than the fixed page size, the engine returns exactly those items after exactly one
  request, whatever \<^verbatim>\<open>total_count\<close> the response reports (it is not constrained
  here) and whatever budget of iterations is left.
\<close>

theorem short_first_page_stops:
  assumes "srv [page_url ep base 1] = Inr r"
    and "items r = ItemsArray xs"
    and "length xs < pageSize"
  shows "fetchAllPages (Suc n) srv ep base = (Returned xs, [page_url ep base 1])"
  using assms
    fetch_loop_return [of srv "[]" ep base
      "\<lparr>currentPage = 1, allItems = [], totalCount = 0\<rparr>" r xs n]
  by (simp add: fetchAllPages_def on_response_short)

text \<open>Seven items, a reported total of 5000: one request, seven items.\<close>

theorem short_first_page_stops_witness:
  "fetchAllPages (Suc 4)
     (\<lambda>sent. Inr \<lparr>total_count = Some 5000, items = ItemsArray ''abcdefg''\<rparr>)
     ''/orders'' ''status=x''
   = (Returned ''abcdefg'', [page_url ''/orders'' ''status=x'' 1])"
  using short_first_page_stops
    [of "\<lambda>sent. Inr \<lparr>total_count = Some 5000, items = ItemsArray ''abcdefg''\<rparr>"
        "''/orders''" "''status=x''"
        "\<lparr>total_count = Some 5000, items = ItemsArray ''abcdefg''\<rparr>" "''abcdefg''" 4]
  by (simp add: pageSize_def)

section \<open>Termination at the exact page boundary\<close>

lemma on_response_full:
  "items r = ItemsArray xs \<Longrightarrow> length xs = pageSize \<Longrightarrow>
   on_response st r =
     (let total = (if currentPage st = 1
                   then (case total_count r of None \<Rightarrow> 0 | Some n \<Rightarrow> n)
                   else totalCount st)
      in if total \<le> int (length (allItems st) + pageSize) then Inl (allItems st @ xs)
         else Inr \<lparr>currentPage = currentPage st + 1, allItems = allItems st @ xs, totalCount = total\<rparr>)"
  by (simp add: on_response_def Let_def)

text \<open>
  Claim C2. With the fixed page size of 100, when the server reports
  \<^verbatim>\<open>total_count: 250\<close> on the first page and answers the three requests with arrays
  of 100, 100 and 50 items, the engine issues exactly the three page requests and
  returns the 250 items concatenated in the order received, for every budget of at
  least three iterations.
\<close>

theorem three_pages_of_250:
  assumes "srv [page_url ep base 1] = Inr r1"
    and "total_count r1 = Some 250" and "items r1 = ItemsArray p1" and "length p1 = 100"
    and "srv [page_url ep base 1, page_url ep base 2] = Inr r2"
    and "items r2 = ItemsArray p2" and "length p2 = 100"
    and "srv [page_url ep base 1, page_url ep base 2, page_url ep base 3] = Inr r3"
    and "items r3 = ItemsArray p3" and "length p3 = 50"
  shows "fetchAllPages (Suc (Suc (Suc n))) srv ep base =
           (Returned (p1 @ p2 @ p3),
            [page_url ep base 1, page_url ep base 2, page_url ep base 3])"
proof -
  let ?s0 = "\<lparr>currentPage = 1, allItems = [], totalCount = 0\<rparr> :: 'a loop_state"
  let ?s1 = "\<lparr>currentPage = 2, allItems = p1, totalCount = 250\<rparr>"
  let ?s2 = "\<lparr>currentPage = 3, allItems = p1 @ p2, totalCount = 250\<rparr>"
  have o1: "on_response ?s0 r1 = Inr ?s1"
    using assms(2,3,4) by (simp add: on_response_full pageSize_def)
  have o2: "on_response ?s1 r2 = Inr ?s2"
    using assms(4,6,7) by (simp add: on_response_full pageSize_def)
  have o3: "on_response ?s2 r3 = Inl (p1 @ p2 @ p3)"
    using assms(4,7,9,10) by (simp add: on_response_def Let_def pageSize_def)
  have "fetchAllPages (Suc (Suc (Suc n))) srv ep base =
          fetch_loop (Suc (Suc n)) srv ep base ?s1 [page_url ep base 1]"
    using fetch_loop_continue [of srv "[]" ep base ?s0 r1 ?s1] assms(1) o1
    by (simp add: fetchAllPages_def)
  also have "\<dots> = fetch_loop (Suc n) srv ep base ?s2 [page_url ep base 1, page_url ep base 2]"
    using fetch_loop_continue [of srv "[page_url ep base 1]" ep base ?s1 r2 ?s2] assms(5) o2
    by simp
  also have "\<dots> = (Returned (p1 @ p2 @ p3),
            [page_url ep base 1, page_url ep base 2, page_url ep base 3])"
    using fetch_loop_return [of srv "[page_url ep base 1, page_url ep base 2]" ep base ?s2 r3] assms(8) o3
    by simp
  finally show ?thesis .
qed

theorem three_pages_of_250_witness:
  "fetchAllPages (Suc (Suc (Suc 0))) three_page_server ''/orders'' ''status=x'' =
     (Returned ([0..<100] @ [100..<200] @ [200..<250]),
      [page_url ''/orders'' ''status=x'' 1, page_url ''/orders'' ''status=x'' 2,
       page_url ''/orders'' ''status=x'' 3])"
  by (rule three_pages_of_250 [where ?r1.0 = "\<lparr>total_count = Some 250, items = ItemsArray [0..<100]\<rparr>"
        and ?r2.0 = "\<lparr>total_count = Some 250, items = ItemsArray [100..<200]\<rparr>"
        and ?r3.0 = "\<lparr>total_count = Some 250, items = ItemsArray [200..<250]\<rparr>"])
     (simp_all add: three_page_server_def)


section \<open>Failure of a page request\<close>

text \<open>
  A run that has used up \<open>m\<close> iterations without leaving the loop has issued \<open>m\<close>
  requests and stands at page \<open>m + 1\<close>.
\<close>

lemma on_response_page:
  "on_response st r = Inr st' \<Longrightarrow> currentPage st' = Suc (currentPage st)"
  by (auto simp: on_response_def Let_def split: if_splits)

lemma fetch_loop_unfinished:
  "fetch_loop m srv ep base st sent = (Unfinished st', sent') \<Longrightarrow>
   length sent' = length sent + m \<and> currentPage st' = currentPage st + m"
proof (induction m arbitrary: st sent)
  case 0
  then show ?case by simp
next
  case (Suc m)
  from Suc.prems obtain r st1
    where r: "srv (sent @ [page_url ep base (currentPage st)]) = Inr r"
      and o: "on_response st r = Inr st1"
      and rest: "fetch_loop m srv ep base st1 (sent @ [page_url ep base (currentPage st)]) = (Unfinished st', sent')"
    by (auto simp: callMagentoApi_def split: sum.splits)
  from Suc.IH [OF rest] on_response_page [OF o] show ?case by simp
qed

text \<open>
  Claim C5. When the first \<open>m\<close> pages have been fetched and the loop goes on, and the
  call for page \<open>m + 1\<close> throws \<open>e\<close>, the whole fetch ends with that same error
  \<open>e\<close>: the failing request is the last one issued (it is not repeated, and no
  further page is requested), and the result carries the error alone, whatever items
  \<open>allItems st\<close> had been accumulated.
\<close>

theorem failure_propagates:
  assumes "fetchAllPages m srv ep base = (Unfinished st, sent)"
    and "srv (sent @ [page_url ep base (currentPage st)]) = Inl e"
  shows "fetchAllPages (m + Suc n) srv ep base =
           (Threw e, sent @ [page_url ep base (currentPage st)])
         \<and> length sent = m \<and> currentPage st = Suc m"
proof -
  have "fetchAllPages (m + Suc n) srv ep base = fetch_loop (Suc n) srv ep base st sent"
    using assms(1)
      fetch_loop_add [of m "Suc n" srv ep base
        "\<lparr>currentPage = 1, allItems = [], totalCount = 0\<rparr>" "[]"]
    unfolding fetchAllPages_def by (simp del: fetch_loop.simps add_Suc_right)
  moreover have "fetch_loop (Suc n) srv ep base st sent =
      (Threw e, sent @ [page_url ep base (currentPage st)])"
    using assms(2) by (rule fetch_loop_throw)
  moreover have "length sent = m \<and> currentPage st = Suc m"
    using fetch_loop_unfinished [of m srv ep base _ "[]" st sent] assms(1)
    by (simp add: fetchAllPages_def)
  ultimately show ?thesis by simp
qed

theorem failure_propagates_witness:
  "fetchAllPages (Suc 0 + Suc 1) failing_second_page ''/orders'' ''status=x'' =
     (Threw (ApiError ''Service Unavailable''),
      [page_url ''/orders'' ''status=x'' 1, page_url ''/orders'' ''status=x'' 2])"
proof -
  have run: "fetchAllPages (Suc 0) failing_second_page ''/orders'' ''status=x'' =
      (Unfinished \<lparr>currentPage = 2, allItems = [0..<100], totalCount = 250\<rparr>,
       [page_url ''/orders'' ''status=x'' 1])"
    by (simp add: fetchAllPages_def callMagentoApi_def failing_second_page_def
        on_response_def pageSize_def)
  have fail: "failing_second_page
      ([page_url ''/orders'' ''status=x'' 1] @
       [page_url ''/orders'' ''status=x''
          (currentPage \<lparr>currentPage = 2, allItems = [0..<100], totalCount = 250\<rparr>)]) =
      Inl (ApiError ''Service Unavailable'')"
    by (simp add: failing_second_page_def)
  from failure_propagates [OF run fail, of 1] show ?thesis by simp
qed


section \<open>Responses whose items are not an array\<close>

lemma object_items_loop:
  fixes st :: "'a loop_state"
  shows "currentPage st = 1 \<or> totalCount st = 5 \<Longrightarrow> allItems st = [] \<Longrightarrow>
   \<exists>sent'. fetch_loop n object_items_server ep base st sent =
     (Unfinished \<lparr>currentPage = currentPage st + n, allItems = [],
        totalCount = (if n = 0 then totalCount st else 5)\<rparr>, sent') \<and> length sent' = length sent + n"
proof (induction n arbitrary: st sent)
  case 0
  then show ?case by simp
next
  case (Suc n)
  let ?st1 = "\<lparr>currentPage = currentPage st + 1, allItems = [], totalCount = 5\<rparr> :: 'a loop_state"
  have o: "on_response st \<lparr>total_count = Some 5, items = ItemsObject None\<rparr> = Inr ?st1"
    using Suc.prems by (auto simp: on_response_def Let_def)
  have step: "fetch_loop (Suc n) object_items_server ep base st sent =
      fetch_loop n object_items_server ep base ?st1 (sent @ [page_url ep base (currentPage st)])"
    by (rule fetch_loop_continue [OF _ o]) (simp add: object_items_server_def)
  from Suc.IH [of ?st1 "sent @ [page_url ep base (currentPage st)]"]
  obtain sent' where "fetch_loop n object_items_server ep base ?st1 (sent @ [page_url ep base (currentPage st)]) =
     (Unfinished \<lparr>currentPage = currentPage ?st1 + n, allItems = [],
        totalCount = (if n = 0 then totalCount ?st1 else 5)\<rparr>, sent')" "length sent' = length (sent @ [page_url ep base (currentPage st)]) + n"
    by auto
  with step show ?case by auto
qed

text \<open>
  Claim C6. A response whose \<^verbatim>\<open>items\<close> member is not an array should count as a
  page with no items and end the fetch as an empty array does. Evaluated on the
  response \<^verbatim>\<open>{ total_count: 5, items: {} }\<close>: nothing is appended and nothing is
  thrown, but the loop is not left, since the empty object is truthy and its
  \<^verbatim>\<open>length\<close> is \<^verbatim>\<open>undefined\<close>; after any number \<open>n + 1\<close> of iterations the
  engine has issued \<open>n + 1\<close> requests and is about to issue the next one. On
  \<^verbatim>\<open>{ total_count: 5, items: [] }\<close> it returns after the first request.
\<close>

theorem object_items_never_stop:
  "(\<exists>sent. fetchAllPages (Suc n) object_items_server ep base =
       (Unfinished \<lparr>currentPage = Suc (Suc n), allItems = [], totalCount = 5\<rparr>, sent)
       \<and> length sent = Suc n)
   \<and> fetchAllPages (Suc n) empty_items_server ep base = (Returned [], [page_url ep base 1])"
proof -
  have "\<exists>sent. fetchAllPages (Suc n) object_items_server ep base =
       (Unfinished \<lparr>currentPage = Suc (Suc n), allItems = [], totalCount = 5\<rparr>, sent)
       \<and> length sent = Suc n"
    using object_items_loop [of "\<lparr>currentPage = 1, allItems = [], totalCount = 0\<rparr>" "Suc n" ep base "[]"]
    by (simp add: fetchAllPages_def del: fetch_loop.simps)
  moreover have "fetchAllPages (Suc n) empty_items_server ep base = (Returned [], [page_url ep base 1])"
    by (simp add: fetchAllPages_def callMagentoApi_def empty_items_server_def on_response_def pageSize_def)
  ultimately show ?thesis by simp
qed


section \<open>The total count is read on the first page only\<close>

lemma on_response_later:
  "1 < currentPage st \<Longrightarrow> on_response st (r\<lparr>total_count := c\<rparr>) = on_response st r"
  by (simp add: on_response_def Let_def)

lemma on_response_total:
  "on_response st r = Inr st' \<Longrightarrow>
   totalCount st' = (if currentPage st = 1
                     then (case total_count r of None \<Rightarrow> 0 | Some n \<Rightarrow> n)
                     else totalCount st)"
  by (auto simp: on_response_def Let_def split: if_splits)

lemma fetch_loop_override:
  "1 < currentPage st \<Longrightarrow> sent \<noteq> [] \<Longrightarrow>
   fetch_loop n (override_later_total_counts g srv) ep base st sent =
   fetch_loop n srv ep base st sent"
proof (induction n arbitrary: st sent)
  case 0
  show ?case by simp
next
  case (Suc n)
  let ?sent = "sent @ [page_url ep base (currentPage st)]"
  have len: "\<not> length ?sent \<le> 1" using Suc.prems(2) by (cases sent) auto
  show ?case
  proof (cases "srv ?sent")
    case (Inl e)
    then show ?thesis using len
      by (simp add: callMagentoApi_def override_later_total_counts_def)
  next
    case (Inr r)
    have ov: "override_later_total_counts g srv ?sent = Inr (r\<lparr>total_count := g ?sent\<rparr>)"
      using Inr len by (simp add: override_later_total_counts_def)
    show ?thesis
    proof (cases "on_response st r")
      case (Inl xs)
      then show ?thesis using Inr ov Suc.prems(1)
        by (simp add: callMagentoApi_def on_response_later)
    next
      case st': (Inr st')
      have "1 < currentPage st'" using on_response_page [OF st'] Suc.prems(1) by simp
      from Suc.IH [OF this, of ?sent] show ?thesis using Inr ov Suc.prems(1) st'
        by (simp add: callMagentoApi_def on_response_later)
    qed
  qed
qed

lemma fetch_loop_total_kept:
  "fetch_loop n srv ep base st sent = (Unfinished st', sent') \<Longrightarrow> 1 < currentPage st \<Longrightarrow>
   totalCount st' = totalCount st"
proof (induction n arbitrary: st sent)
  case 0
  then show ?case by simp
next
  case (Suc n)
  from Suc.prems(1) obtain r st1
    where r: "srv (sent @ [page_url ep base (currentPage st)]) = Inr r"
      and o: "on_response st r = Inr st1"
      and rest: "fetch_loop n srv ep base st1 (sent @ [page_url ep base (currentPage st)]) = (Unfinished st', sent')"
    by (auto simp: callMagentoApi_def split: sum.splits)
  have "1 < currentPage st1" using on_response_page [OF o] Suc.prems(2) by simp
  from Suc.IH [OF rest this] on_response_total [OF o] Suc.prems(2) show ?case by simp
qed

lemma full_page_step:
  fixes st :: "'a loop_state"
  assumes first: "srv [page_url ep base 1] = Inr r1"
    and reply: "srv (sent @ [page_url ep base (currentPage st)]) = Inr r"
    and page: "items r = ItemsArray xs" "length xs = pageSize"
    and inv: "currentPage st = Suc (length sent)" "length (allItems st) = pageSize * length sent"
      "sent = [] \<or> totalCount st = first_total r1"
  shows "on_response st r =
     (if first_total r1 \<le> int (pageSize * Suc (length sent)) then Inl (allItems st @ xs)
      else Inr \<lparr>currentPage = Suc (Suc (length sent)), allItems = allItems st @ xs,
                totalCount = first_total r1\<rparr>)"
proof -
  have total: "(if currentPage st = 1
                then (case total_count r of None \<Rightarrow> 0 | Some n \<Rightarrow> n)
                else totalCount st) = first_total r1"
  proof (cases sent)
    case Nil
    with reply first inv(1) have "r = r1" by simp
    with Nil inv(1) show ?thesis by (simp add: first_total_def)
  next
    case (Cons a as)
    with inv(1,3) show ?thesis by simp
  qed
  have "length (allItems st) + pageSize = pageSize * Suc (length sent)"
    using inv(2) by simp
  with total inv(1) show ?thesis
    by (simp only: on_response_full [OF page] Let_def) simp
qed

lemma full_pages_unfinished:
  fixes st :: "'a loop_state"
  assumes full: "\<And>sent. \<exists>r xs. srv sent = Inr r \<and> items r = ItemsArray xs \<and> length xs = pageSize"
    and first: "srv [page_url ep base 1] = Inr r1"
  shows "currentPage st = Suc (length sent) \<Longrightarrow>
    length (allItems st) = pageSize * length sent \<Longrightarrow>
    sent = [] \<or> totalCount st = first_total r1 \<Longrightarrow>
    int (pageSize * (length sent + n)) < first_total r1 \<Longrightarrow>
    \<exists>st' sent'. fetch_loop n srv ep base st sent = (Unfinished st', sent')
       \<and> length sent' = length sent + n
       \<and> (sent' = [] \<or> totalCount st' = first_total r1)"
proof (induction n arbitrary: st sent)
  case 0
  then show ?case by simp
next
  case (Suc n)
  let ?sent = "sent @ [page_url ep base (currentPage st)]"
  from full [of ?sent] obtain r xs
    where reply: "srv ?sent = Inr r" and page: "items r = ItemsArray xs" "length xs = pageSize"
    by blast
  let ?st = "\<lparr>currentPage = Suc (Suc (length sent)), allItems = allItems st @ xs,
                totalCount = first_total r1\<rparr>"
  have more: "\<not> first_total r1 \<le> int (pageSize * Suc (length sent))"
    using Suc.prems(4) by (simp add: pageSize_def)
  have o: "on_response st r = Inr ?st"
    using full_page_step [OF first reply page Suc.prems(1,2,3)] more by simp
  have step: "fetch_loop (Suc n) srv ep base st sent = fetch_loop n srv ep base ?st ?sent"
    by (rule fetch_loop_continue [of srv sent ep base st, OF reply o])
  have "\<exists>st' sent'. fetch_loop n srv ep base ?st ?sent = (Unfinished st', sent')
       \<and> length sent' = length ?sent + n
       \<and> (sent' = [] \<or> totalCount st' = first_total r1)"
    using Suc.prems(2,4) page(2) by (intro Suc.IH) simp_all
  with step show ?case by simp
qed

lemma full_pages_returned:
  fixes st :: "'a loop_state"
  assumes full: "\<And>sent. \<exists>r xs. srv sent = Inr r \<and> items r = ItemsArray xs \<and> length xs = pageSize"
    and first: "srv [page_url ep base 1] = Inr r1"
  shows "currentPage st = Suc (length sent) \<Longrightarrow>
    length (allItems st) = pageSize * length sent \<Longrightarrow>
    sent = [] \<or> totalCount st = first_total r1 \<Longrightarrow>
    sent = [] \<or> int (pageSize * length sent) < first_total r1 \<Longrightarrow>
    first_total r1 \<le> int (pageSize * (length sent + n)) \<Longrightarrow> 0 < n \<Longrightarrow>
    \<exists>ys sent'. fetch_loop n srv ep base st sent = (Returned ys, sent')
       \<and> 0 < length sent'
       \<and> length ys = pageSize * length sent'
       \<and> first_total r1 \<le> int (length ys)
       \<and> (length sent' = 1 \<or> int (length ys) - int pageSize < first_total r1)"
proof (induction n arbitrary: st sent)
  case 0
  then show ?case by simp
next
  case (Suc n)
  let ?sent = "sent @ [page_url ep base (currentPage st)]"
  from full [of ?sent] obtain r xs
    where reply: "srv ?sent = Inr r" and page: "items r = ItemsArray xs" "length xs = pageSize"
    by blast
  note o = full_page_step [OF first reply page Suc.prems(1,2,3)]
  show ?case
  proof (cases "first_total r1 \<le> int (pageSize * Suc (length sent))")
    case True
    with o have "on_response st r = Inl (allItems st @ xs)" by simp
    from fetch_loop_return [of srv sent ep base st, OF reply this]
    have run: "fetch_loop (Suc n) srv ep base st sent = (Returned (allItems st @ xs), ?sent)" .
    have len: "length (allItems st @ xs) = pageSize * length ?sent"
      using Suc.prems(2) page(2) by simp
    have last: "length ?sent = 1 \<or> int (length (allItems st @ xs)) - int pageSize < first_total r1"
      using Suc.prems(2,4) page(2) by (cases sent) simp_all
    have bound: "first_total r1 \<le> int (length (allItems st @ xs))"
      using True len by simp
    have pos: "0 < length ?sent" by simp
    from run pos len bound last show ?thesis by blast
  next
    case False
    let ?st = "\<lparr>currentPage = Suc (Suc (length sent)), allItems = allItems st @ xs,
                totalCount = first_total r1\<rparr>"
    from False o have "on_response st r = Inr ?st" by simp
    from fetch_loop_continue [of srv sent ep base st, OF reply this]
    have step: "fetch_loop (Suc n) srv ep base st sent = fetch_loop n srv ep base ?st ?sent" .
    have n: "0 < n" using False Suc.prems(5) by (cases n) simp_all
    have "\<exists>ys sent'. fetch_loop n srv ep base ?st ?sent = (Returned ys, sent')
       \<and> 0 < length sent'
       \<and> length ys = pageSize * length sent'
       \<and> first_total r1 \<le> int (length ys)
       \<and> (length sent' = 1 \<or> int (length ys) - int pageSize < first_total r1)"
      using Suc.prems(2,5) page(2) False n by (intro Suc.IH) simp_all
    with step show ?thesis by simp
  qed
qed

text \<open>
  Claim C7. The total count that decides termination is the one of the first response.
  First, replacing the \<^verbatim>\<open>total_count\<close> of every later response by anything at all
  changes neither the result nor the requests. Second, a first response without
  \<^verbatim>\<open>total_count\<close> raises no error: the count is 0, so the engine returns that page's
  items after one request. Third, as long as the loop runs, its \<^verbatim>\<open>totalCount\<close> is the
  value of the first response. Fourth, the value of the first response is what ends the
  fetch: under a server of full pages the loop is still running after \<open>n\<close> iterations,
  with \<open>n\<close> requests issued, as long as \<open>n\<close> pages hold fewer items than the first
  response reported, and otherwise it returns with the first page at which the items
  received reach that value (the first page at the earliest).
\<close>

theorem total_count_from_first_page:
  "fetchAllPages n (override_later_total_counts g srv) ep base = fetchAllPages n srv ep base
   \<and> (srv [page_url ep base 1] = Inr r \<and> total_count r = None \<longrightarrow>
        fetchAllPages (Suc n) srv ep base =
          (Returned (case items r of ItemsArray xs \<Rightarrow> xs | _ \<Rightarrow> []), [page_url ep base 1]))
   \<and> (srv [page_url ep base 1] = Inr r \<and> fetchAllPages (Suc n) srv ep base = (Unfinished st, sent) \<longrightarrow>
        totalCount st = (case total_count r of None \<Rightarrow> 0 | Some c \<Rightarrow> c))
   \<and> (srv [page_url ep base 1] = Inr r
        \<and> (\<forall>sent. \<exists>r' xs. srv sent = Inr r' \<and> items r' = ItemsArray xs
               \<and> length xs = pageSize) \<longrightarrow>
        (int (pageSize * n) < first_total r \<longrightarrow>
           (\<exists>st sent. fetchAllPages n srv ep base = (Unfinished st, sent)
              \<and> length sent = n \<and> (sent = [] \<or> totalCount st = first_total r)))
        \<and> (0 < n \<and> first_total r \<le> int (pageSize * n) \<longrightarrow>
           (\<exists>ys sent. fetchAllPages n srv ep base = (Returned ys, sent)
              \<and> 0 < length sent
              \<and> length ys = pageSize * length sent
              \<and> first_total r \<le> int (length ys)
              \<and> (length sent = 1 \<or> int (length ys) - int pageSize < first_total r))))"
proof -
  let ?s0 = "\<lparr>currentPage = 1, allItems = [], totalCount = 0\<rparr> :: 'a loop_state"
  let ?u = "page_url ep base 1"
  have first: "override_later_total_counts g srv [?u] = srv [?u]"
    by (simp add: override_later_total_counts_def)
  have A: "fetchAllPages n (override_later_total_counts g srv) ep base = fetchAllPages n srv ep base"
  proof (cases n)
    case 0
    then show ?thesis by (simp add: fetchAllPages_def)
  next
    case (Suc k)
    show ?thesis
    proof (cases "srv [?u]")
      case (Inl e)
      then show ?thesis using first Suc by (simp add: fetchAllPages_def callMagentoApi_def)
    next
      case (Inr r1)
      show ?thesis
      proof (cases "on_response ?s0 r1")
        case (Inl xs)
        then show ?thesis using first Suc Inr by (simp add: fetchAllPages_def callMagentoApi_def)
      next
        case st1: (Inr st1)
        have "1 < currentPage st1" using on_response_page [OF st1] by simp
        from fetch_loop_override [OF this, of "[?u]" k g srv ep base]
        show ?thesis using first Suc Inr st1 by (simp add: fetchAllPages_def callMagentoApi_def)
      qed
    qed
  qed
  have B: "fetchAllPages (Suc n) srv ep base =
          (Returned (case items r of ItemsArray xs \<Rightarrow> xs | _ \<Rightarrow> []), [?u])"
    if "srv [?u] = Inr r" "total_count r = None"
  proof -
    have "on_response ?s0 r = Inl (case items r of ItemsArray xs \<Rightarrow> xs | _ \<Rightarrow> [])"
      using that(2) by (simp add: on_response_def Let_def split: items_field.splits)
    with that(1) show ?thesis by (simp add: fetchAllPages_def callMagentoApi_def)
  qed
  have C: "totalCount st = (case total_count r of None \<Rightarrow> 0 | Some c \<Rightarrow> c)"
    if "srv [?u] = Inr r" "fetchAllPages (Suc n) srv ep base = (Unfinished st, sent)"
  proof -
    from that obtain st1 where o: "on_response ?s0 r = Inr st1"
      and rest: "fetch_loop n srv ep base st1 [?u] = (Unfinished st, sent)"
      by (auto simp: fetchAllPages_def callMagentoApi_def split: sum.splits)
    have "1 < currentPage st1" using on_response_page [OF o] by simp
    from fetch_loop_total_kept [OF rest this] on_response_total [OF o] show ?thesis by simp
  qed
  have D: "\<exists>st sent. fetchAllPages n srv ep base = (Unfinished st, sent)
              \<and> length sent = n \<and> (sent = [] \<or> totalCount st = first_total r)"
    if "srv [?u] = Inr r"
      and "\<forall>sent. \<exists>r' xs. srv sent = Inr r' \<and> items r' = ItemsArray xs
             \<and> length xs = pageSize"
      and "int (pageSize * n) < first_total r"
    unfolding fetchAllPages_def
    using full_pages_unfinished [of srv ep base r ?s0 "[]" n] that by simp
  have E: "\<exists>ys sent. fetchAllPages n srv ep base = (Returned ys, sent)
              \<and> 0 < length sent
              \<and> length ys = pageSize * length sent
              \<and> first_total r \<le> int (length ys)
              \<and> (length sent = 1 \<or> int (length ys) - int pageSize < first_total r)"
    if "srv [?u] = Inr r"
      and "\<forall>sent. \<exists>r' xs. srv sent = Inr r' \<and> items r' = ItemsArray xs
             \<and> length xs = pageSize"
      and "0 < n" and "first_total r \<le> int (pageSize * n)"
    unfolding fetchAllPages_def
    using full_pages_returned [of srv ep base r ?s0 "[]" n] that by simp
  from A B C D E show ?thesis by blast
qed

theorem total_count_from_first_page_witness:
  "fetchAllPages 5 (override_later_total_counts (\<lambda>sent. Some 7) three_page_server)
       ''/orders'' ''status=x'' =
     fetchAllPages 5 three_page_server ''/orders'' ''status=x''
   \<and> fetchAllPages (Suc 2) no_total_server ''/orders'' ''status=x'' =
       (Returned [0..<100], [page_url ''/orders'' ''status=x'' 1])
   \<and> (\<exists>st sent. fetchAllPages 2 misreporting_server ''/orders'' ''status=x'' =
          (Unfinished st, sent) \<and> length sent = 2 \<and> (sent = [] \<or> totalCount st = 250))
   \<and> (\<exists>ys sent. fetchAllPages 5 misreporting_server ''/orders'' ''status=x'' =
          (Returned ys, sent)
          \<and> 0 < length sent \<and> length ys = pageSize * length sent \<and> 250 \<le> int (length ys)
          \<and> (length sent = 1 \<or> int (length ys) - int pageSize < 250))"
proof -
  let ?u = "page_url ''/orders'' ''status=x'' 1"
  let ?r = "\<lparr>total_count = Some 250, items = ItemsArray [0..<100]\<rparr> :: nat search_result"
  have a: "no_total_server [?u] = Inr \<lparr>total_count = None, items = ItemsArray [0..<100]\<rparr>"
    by (simp add: no_total_server_def)
  have b: "misreporting_server [?u] = Inr ?r"
    by (simp add: misreporting_server_def)
  have full: "\<forall>sent. \<exists>r' xs. misreporting_server sent = Inr r' \<and> items r' = ItemsArray xs
      \<and> length xs = pageSize"
    by (simp add: misreporting_server_def pageSize_def)
  have c: "first_total ?r = 250" by (simp add: first_total_def)
  note one = total_count_from_first_page
    [of 5 "\<lambda>sent. Some 7" three_page_server "''/orders''" "''status=x''", THEN conjunct1]
  note two = total_count_from_first_page
    [of 2 "\<lambda>sent. None" no_total_server "''/orders''" "''status=x''"
        "\<lparr>total_count = None, items = ItemsArray [0..<100]\<rparr>",
      THEN conjunct2, THEN conjunct1, rule_format, OF conjI [OF a]]
  note three = total_count_from_first_page
    [of 2 "\<lambda>sent. None" misreporting_server "''/orders''" "''status=x''" ?r,
      THEN conjunct2, THEN conjunct2, THEN conjunct2, THEN mp, OF conjI [OF b full],
      THEN conjunct1, THEN mp]
  note four = total_count_from_first_page
    [of 5 "\<lambda>sent. None" misreporting_server "''/orders''" "''status=x''" ?r,
      THEN conjunct2, THEN conjunct2, THEN conjunct2, THEN mp, OF conjI [OF b full],
      THEN conjunct2, THEN mp]
  have "fetchAllPages (Suc 2) no_total_server ''/orders'' ''status=x'' =
       (Returned [0..<100], [?u])"
    using two by simp
  moreover have "\<exists>st sent. fetchAllPages 2 misreporting_server ''/orders'' ''status=x'' =
          (Unfinished st, sent) \<and> length sent = 2 \<and> (sent = [] \<or> totalCount st = 250)"
    using three by (simp add: c pageSize_def)
  moreover have "\<exists>ys sent. fetchAllPages 5 misreporting_server ''/orders'' ''status=x'' =
          (Returned ys, sent)
          \<and> 0 < length sent \<and> length ys = pageSize * length sent \<and> 250 \<le> int (length ys)
          \<and> (length sent = 1 \<or> int (length ys) - int pageSize < 250)"
    using four by (simp add: c pageSize_def)
  ultimately show ?thesis using one by blast
qed

section \<open>No bound on the number of pages\<close>

lemma full_pages_loop:
  fixes st :: "unit loop_state"
  shows "currentPage st = 1 \<or> totalCount st = c \<Longrightarrow>
   int (length (allItems st)) + int (pageSize * n) < c \<Longrightarrow>
   \<exists>st' sent'. fetch_loop n (full_pages_server c) ep base st sent = (Unfinished st', sent')"
proof (induction n arbitrary: st sent)
  case 0
  show ?case by simp
next
  case (Suc n)
  let ?r = "\<lparr>total_count = Some c, items = ItemsArray (replicate pageSize ())\<rparr>"
  let ?st1 = "\<lparr>currentPage = currentPage st + 1,
               allItems = allItems st @ replicate pageSize (), totalCount = c\<rparr>"
  have more: "\<not> c \<le> int (length (allItems st) + pageSize)"
    using Suc.prems(2) by (simp add: pageSize_def)
  have o: "on_response st ?r = Inr ?st1"
    using Suc.prems(1) more by (auto simp: on_response_full Let_def)
  have step: "fetch_loop (Suc n) (full_pages_server c) ep base st sent =
      fetch_loop n (full_pages_server c) ep base ?st1 (sent @ [page_url ep base (currentPage st)])"
    by (rule fetch_loop_continue [OF _ o]) (simp add: full_pages_server_def)
  have "int (length (allItems ?st1)) + int (pageSize * n) < c"
    using Suc.prems(2) by (simp add: pageSize_def)
  from Suc.IH [of ?st1, OF _ this] step show ?case by simp
qed

text \<open>
  Claim C8. The loop has no bound of its own on the number of requests. For every
  \<open>n\<close> there is a server, answering each request with exactly \<^verbatim>\<open>pageSize\<close> items and
  reporting a total count above everything accumulated in \<open>n + 1\<close> pages, under
  which the engine has issued \<open>n + 1\<close> requests after \<open>n + 1\<close> iterations and has not
  left the loop: it stands at page \<open>n + 2\<close>.
\<close>

theorem no_page_count_bound:
  "\<exists>srv :: unit server.
     (\<exists>c. int (pageSize * Suc n) < c \<and>
        (\<forall>sent. srv sent =
           Inr \<lparr>total_count = Some c, items = ItemsArray (replicate pageSize ())\<rparr>))
     \<and> (\<exists>st sent. fetchAllPages (Suc n) srv ep base = (Unfinished st, sent)
           \<and> length sent = Suc n \<and> currentPage st = Suc (Suc n))"
proof -
  let ?c = "int (pageSize * Suc n) + 1"
  let ?s0 = "\<lparr>currentPage = 1, allItems = [], totalCount = 0\<rparr> :: unit loop_state"
  have srv: "\<exists>c. int (pageSize * Suc n) < c \<and>
        (\<forall>sent. full_pages_server ?c sent =
           Inr \<lparr>total_count = Some c, items = ItemsArray (replicate pageSize ())\<rparr>)"
    by (rule exI [of _ ?c]) (simp add: full_pages_server_def)
  obtain st sent
    where run: "fetch_loop (Suc n) (full_pages_server ?c) ep base ?s0 [] = (Unfinished st, sent)"
    using full_pages_loop [of ?s0 ?c "Suc n" ep base "[]"] by auto
  from fetch_loop_unfinished [OF run]
  have "length sent = Suc n \<and> currentPage st = Suc (Suc n)"
    by simp
  with run have "\<exists>st sent. fetchAllPages (Suc n) (full_pages_server ?c) ep base = (Unfinished st, sent)
           \<and> length sent = Suc n \<and> currentPage st = Suc (Suc n)"
    unfolding fetchAllPages_def by blast
  with srv show ?thesis by blast
qed


section \<open>The query string of each page\<close>

lemma starts_with_iff: "starts_with s p \<longleftrightarrow> (\<exists>t. s = p @ t)"
  by (induction s p rule: starts_with.induct) auto

lemma starts_with_drop: "starts_with s p \<Longrightarrow> s = p @ drop (length p) s"
  by (auto simp: starts_with_iff)

lemma match_current_page_cases:
  "match_current_page s = Some rest \<Longrightarrow>
   starts_with s k \<and> (\<exists>x xs. drop (length k) s = x # xs \<and> is_digit x \<and> rest = dropWhile is_digit xs)"
  if "k = currentPageKey @ ''=''"
  unfolding match_current_page_def that [symmetric]
  by (cases "drop (length k) s") (simp_all split: if_splits)

lemma starts_with_key:
  "starts_with s (currentPageKey @ ''='') \<Longrightarrow> starts_with s currentPageKey"
  by (auto simp: starts_with_iff)

lemma has_number_includes:
  "has_current_page_number c \<Longrightarrow> str_includes c currentPageKey"
proof (induction c)
  case Nil
  then show ?case by simp
next
  case (Cons x xs)
  show ?case
  proof (cases "match_current_page (x # xs)")
    case (Some rest)
    then have "starts_with (x # xs) (currentPageKey @ ''='')"
      by (simp add: match_current_page_def split: if_splits)
    then have "starts_with (x # xs) currentPageKey" by (rule starts_with_key)
    then show ?thesis by (simp del: starts_with.simps)
  next
    case None
    with Cons show ?thesis by (simp del: starts_with.simps)
  qed
qed

lemma show_nat_pageSize: "show_nat pageSize = ''100''"
  by code_simp

lemma str_includes_iff: "str_includes s n \<longleftrightarrow> (\<exists>p t. s = p @ n @ t)"
proof (induction s)
  case Nil
  show ?case by (cases n) simp_all
next
  case (Cons c cs)
  have "(\<exists>p t. c # cs = p @ n @ t) \<longleftrightarrow> (\<exists>t. c # cs = n @ t) \<or> (\<exists>p t. cs = p @ n @ t)"
  proof
    assume "\<exists>p t. c # cs = p @ n @ t"
    then obtain p t where pt: "c # cs = p @ n @ t" by blast
    show "(\<exists>t. c # cs = n @ t) \<or> (\<exists>p t. cs = p @ n @ t)"
    proof (cases p)
      case Nil
      with pt show ?thesis by auto
    next
      case (Cons a p')
      with pt have "cs = p' @ n @ t" by simp
      then show ?thesis by blast
    qed
  next
    assume "(\<exists>t. c # cs = n @ t) \<or> (\<exists>p t. cs = p @ n @ t)"
    then show "\<exists>p t. c # cs = p @ n @ t"
    proof
      assume "\<exists>t. c # cs = n @ t"
      then obtain t where "c # cs = [] @ n @ t" by auto
      then show ?thesis by blast
    next
      assume "\<exists>p t. cs = p @ n @ t"
      then obtain p t where "cs = p @ n @ t" by blast
      then have "c # cs = (c # p) @ n @ t" by simp
      then show ?thesis by blast
    qed
  qed
  with Cons show ?case
    by (simp only: str_includes.simps starts_with_iff) auto
qed

lemma match_current_page_digit:
  assumes k: "k = currentPageKey @ ''=''"
    and s: "s = k @ x # xs" and x: "is_digit x"
  shows "match_current_page s = Some (dropWhile is_digit xs)"
proof -
  have "starts_with s k" using s by (simp add: starts_with_iff)
  moreover have "drop (length k) s = x # xs" using s by simp
  ultimately show ?thesis
    unfolding match_current_page_def k [symmetric] using x by simp
qed

lemma dropWhile_stops: "(case dropWhile P xs of [] \<Rightarrow> True | c # cs \<Rightarrow> P c = False)"
  by (induction xs) simp_all

lemma match_current_page_run:
  assumes k: "k = currentPageKey @ ''=''"
    and m: "match_current_page s = Some rest"
  shows "\<exists>d. s = k @ d @ rest \<and> d \<noteq> [] \<and> list_all is_digit d
     \<and> (case rest of [] \<Rightarrow> True | c # cs \<Rightarrow> is_digit c = False)"
proof -
  from match_current_page_cases [OF k m] obtain x xs
    where sw: "starts_with s k" and dr: "drop (length k) s = x # xs" and x: "is_digit x"
      and rest: "rest = dropWhile is_digit xs"
    by blast
  let ?d = "x # takeWhile is_digit xs"
  have "s = k @ x # xs" using starts_with_drop [OF sw] dr by simp
  also have "x # xs = ?d @ rest" using rest by simp
  finally have "s = k @ ?d @ rest" .
  moreover have "list_all is_digit (takeWhile is_digit xs)"
    by (induction xs) simp_all
  then have "list_all is_digit ?d" using x by simp
  moreover have "?d \<noteq> []" by simp
  moreover have "(case rest of [] \<Rightarrow> True | c # cs \<Rightarrow> is_digit c = False)"
    unfolding rest by (rule dropWhile_stops)
  ultimately show ?thesis by blast
qed

lemma replace_leftmost_run:
  assumes k: "k = currentPageKey @ ''=''"
  shows "has_current_page_number c \<Longrightarrow>
   \<exists>pre d suf. c = pre @ k @ d @ suf \<and> d \<noteq> [] \<and> list_all is_digit d
      \<and> (case suf of [] \<Rightarrow> True | x # xs \<Rightarrow> is_digit x = False)
      \<and> (\<forall>p x xs. c = p @ k @ x # xs \<and> is_digit x \<longrightarrow> length pre \<le> length p)
      \<and> (\<forall>r. replace_current_page c r = pre @ r @ suf)"
proof (induction c)
  case Nil
  then show ?case by simp
next
  case (Cons a as)
  show ?case
  proof (cases "match_current_page (a # as)")
    case (Some rest)
    from match_current_page_run [OF k Some] obtain d
      where "a # as = k @ d @ rest" "d \<noteq> []" "list_all is_digit d"
        "(case rest of [] \<Rightarrow> True | x # xs \<Rightarrow> is_digit x = False)" by blast
    moreover have "\<forall>r. replace_current_page (a # as) r = [] @ r @ rest" using Some by simp
    ultimately have "a # as = [] @ k @ d @ rest \<and> d \<noteq> [] \<and> list_all is_digit d
      \<and> (case rest of [] \<Rightarrow> True | x # xs \<Rightarrow> is_digit x = False)
      \<and> (\<forall>p x xs. a # as = p @ k @ x # xs \<and> is_digit x \<longrightarrow> length ([] :: string) \<le> length p)
      \<and> (\<forall>r. replace_current_page (a # as) r = [] @ r @ rest)"
      by simp
    then show ?thesis by (intro exI)
  next
    case None
    with Cons.prems have "has_current_page_number as" by simp
    from Cons.IH [OF this] obtain pre d suf
      where c: "as = pre @ k @ d @ suf" and d: "d \<noteq> []" "list_all is_digit d"
        and stop: "(case suf of [] \<Rightarrow> True | x # xs \<Rightarrow> is_digit x = False)"
        and left: "\<forall>p x xs. as = p @ k @ x # xs \<and> is_digit x \<longrightarrow> length pre \<le> length p"
        and r: "\<forall>r. replace_current_page as r = pre @ r @ suf" by blast
    have left': "length (a # pre) \<le> length p"
      if eq: "a # as = p @ k @ x # xs" and x: "is_digit x" for p x xs
    proof (cases p)
      case Nil
      with eq have "a # as = k @ x # xs" by simp
      from match_current_page_digit [OF k this x] None show ?thesis by simp
    next
      case (Cons b p')
      with eq have "as = p' @ k @ x # xs" by simp
      with left x have "length pre \<le> length p'" by blast
      with Cons show ?thesis by simp
    qed
    have "a # as = (a # pre) @ k @ d @ suf" using c by simp
    moreover have "\<forall>r. replace_current_page (a # as) r = (a # pre) @ r @ suf"
      using None r by simp
    ultimately show ?thesis using d stop left' by blast
  qed
qed

lemma has_number_iff:
  assumes k: "k = currentPageKey @ ''=''"
  shows "has_current_page_number c \<longleftrightarrow> (\<exists>p x xs. c = p @ k @ x # xs \<and> is_digit x)"
proof
  assume "has_current_page_number c"
  from replace_leftmost_run [OF k this] obtain pre d suf
    where c: "c = pre @ k @ d @ suf" and d: "d \<noteq> []" "list_all is_digit d" by blast
  from d obtain x xs where "d = x # xs" "is_digit x" by (cases d) simp_all
  with c have "c = pre @ k @ x # (xs @ suf) \<and> is_digit x" by simp
  then show "\<exists>p x xs. c = p @ k @ x # xs \<and> is_digit x" by blast
next
  assume "\<exists>p x xs. c = p @ k @ x # xs \<and> is_digit x"
  then obtain p x xs where c: "c = p @ k @ x # xs" and x: "is_digit x" by blast
  show "has_current_page_number c" unfolding c
  proof (induction p)
    case Nil
    have "k @ x # xs \<noteq> []" using k by (simp add: currentPageKey_def)
    then obtain a as where a: "k @ x # xs = a # as" by (cases "k @ x # xs") simp_all
    from match_current_page_digit [OF k refl x, of xs] show ?case
      by (simp only: append_Nil a has_current_page_number.simps) (simp add: a [symmetric])
  next
    case (Cons b p)
    then show ?case by (cases "match_current_page (b # p @ k @ x # xs)") simp_all
  qed
qed

lemma key_with_equals: "''searchCriteria[currentPage]='' = currentPageKey @ ''=''"
  by (simp add: currentPageKey_def)

text \<open>
  Claim C4. For a base criteria string that holds the page-size key, only the page
  number should change from one iteration to the next, substituted in place when the
  current-page key is present and appended otherwise. Evaluated on the base string
  \<^verbatim>\<open>searchCriteria[pageSize]=100&searchCriteria[currentPage]=\<close>, in which the
  current-page key is present without a number: \<^verbatim>\<open>includes\<close> finds the key, so nothing
  is appended, and the regular expression, which needs a digit, does not match, so
  nothing is substituted. The page size is kept, but every iteration builds the base
  string itself, and against a server that holds 250 items the engine requests the same
  URL three times and returns the first page three times.
\<close>

theorem current_page_without_number_repeats:
  "currentPageSearchCriteria ''searchCriteria[pageSize]=100&searchCriteria[currentPage]='' 1
     = ''searchCriteria[pageSize]=100&searchCriteria[currentPage]=''
   \<and> currentPageSearchCriteria ''searchCriteria[pageSize]=100&searchCriteria[currentPage]='' 2
     = ''searchCriteria[pageSize]=100&searchCriteria[currentPage]=''
   \<and> fetchAllPages 5 (paged_server [0..<250])
       ''/orders'' ''searchCriteria[pageSize]=100&searchCriteria[currentPage]='' =
     (Returned ([0..<100] @ [0..<100] @ [0..<100]),
      [''/orders?searchCriteria[pageSize]=100&searchCriteria[currentPage]='',
       ''/orders?searchCriteria[pageSize]=100&searchCriteria[currentPage]='',
       ''/orders?searchCriteria[pageSize]=100&searchCriteria[currentPage]=''])"
  by code_simp

text \<open>
  Property X2. The query string of each iteration, in the two cases that the code
  provides for. The page size of 100 is appended exactly when the base string does not
  hold the page-size key. Then, in a string without the current-page key,
  \<^verbatim>\<open>&searchCriteria[currentPage]=k\<close> is appended; in a string where the key is followed
  by \<^verbatim>\<open>=\<close> and a digit, the leftmost such place is taken, the whole run of digits
  there is replaced by \<open>k\<close>, and everything before and after it stays as it is.
\<close>

theorem page_query_by_cases:
  "((\<exists>p t. base = p @ ''searchCriteria[pageSize]'' @ t) \<longrightarrow>
      currentPageSearchCriteria base k = set_current_page base k)
   \<and> ((\<forall>p t. base \<noteq> p @ ''searchCriteria[pageSize]'' @ t) \<longrightarrow>
      currentPageSearchCriteria base k =
        set_current_page (base @ ''&searchCriteria[pageSize]=100'') k)
   \<and> ((\<forall>p t. c \<noteq> p @ ''searchCriteria[currentPage]'' @ t) \<longrightarrow>
      set_current_page c k = c @ ''&searchCriteria[currentPage]='' @ show_nat k)
   \<and> ((\<exists>p x xs. c = p @ ''searchCriteria[currentPage]='' @ x # xs \<and> is_digit x) \<longrightarrow>
      (\<exists>pre d suf.
          c = pre @ ''searchCriteria[currentPage]='' @ d @ suf
          \<and> d \<noteq> [] \<and> list_all is_digit d
          \<and> (case suf of [] \<Rightarrow> True | x # xs \<Rightarrow> is_digit x = False)
          \<and> (\<forall>p x xs. c = p @ ''searchCriteria[currentPage]='' @ x # xs \<and> is_digit x
                \<longrightarrow> length pre \<le> length p)
          \<and> (\<forall>k. set_current_page c k =
                pre @ ''searchCriteria[currentPage]='' @ show_nat k @ suf)))"
proof -
  have size_key: "str_includes base pageSizeKey =
      (\<exists>p t. base = p @ ''searchCriteria[pageSize]'' @ t)"
    by (simp only: str_includes_iff pageSizeKey_def)
  have page_key: "str_includes c currentPageKey =
      (\<exists>p t. c = p @ ''searchCriteria[currentPage]'' @ t)"
    by (simp only: str_includes_iff currentPageKey_def)
  have A: "currentPageSearchCriteria base k = set_current_page base k"
    if "\<exists>p t. base = p @ ''searchCriteria[pageSize]'' @ t"
    using that unfolding size_key [symmetric]
    by (simp add: currentPageSearchCriteria_def add_page_size_def)
  have B: "currentPageSearchCriteria base k =
        set_current_page (base @ ''&searchCriteria[pageSize]=100'') k"
    if "\<forall>p t. base \<noteq> p @ ''searchCriteria[pageSize]'' @ t"
  proof -
    from that have "str_includes base pageSizeKey = False"
      unfolding size_key by blast
    then show ?thesis
      by (simp add: currentPageSearchCriteria_def add_page_size_def show_nat_pageSize)
  qed
  have C: "set_current_page c k = c @ ''&searchCriteria[currentPage]='' @ show_nat k"
    if "\<forall>p t. c \<noteq> p @ ''searchCriteria[currentPage]'' @ t"
  proof -
    from that have "str_includes c currentPageKey = False"
      unfolding page_key by blast
    then show ?thesis by (simp add: set_current_page_def)
  qed
  have D: "\<exists>pre d suf.
          c = pre @ ''searchCriteria[currentPage]='' @ d @ suf
          \<and> d \<noteq> [] \<and> list_all is_digit d
          \<and> (case suf of [] \<Rightarrow> True | x # xs \<Rightarrow> is_digit x = False)
          \<and> (\<forall>p x xs. c = p @ ''searchCriteria[currentPage]='' @ x # xs \<and> is_digit x
                \<longrightarrow> length pre \<le> length p)
          \<and> (\<forall>k. set_current_page c k =
                pre @ ''searchCriteria[currentPage]='' @ show_nat k @ suf)"
    if "\<exists>p x xs. c = p @ ''searchCriteria[currentPage]='' @ x # xs \<and> is_digit x"
  proof -
    from that have num: "has_current_page_number c"
      by (simp only: has_number_iff [OF key_with_equals])
    from replace_leftmost_run [OF key_with_equals num] obtain pre d suf
      where c: "c = pre @ ''searchCriteria[currentPage]='' @ d @ suf"
        and d: "d \<noteq> []" "list_all is_digit d"
        and stop: "(case suf of [] \<Rightarrow> True | x # xs \<Rightarrow> is_digit x = False)"
        and left: "\<forall>p x xs. c = p @ ''searchCriteria[currentPage]='' @ x # xs \<and> is_digit x
            \<longrightarrow> length pre \<le> length p"
        and r: "\<forall>r. replace_current_page c r = pre @ r @ suf" by blast
    have "set_current_page c k =
        replace_current_page c (''searchCriteria[currentPage]='' @ show_nat k)" for k
      using has_number_includes [OF num]
      by (simp only: set_current_page_def if_True)
    then have "\<forall>k. set_current_page c k =
        pre @ ''searchCriteria[currentPage]='' @ show_nat k @ suf"
      using r by (simp only: append_assoc refl simp_thms)
    with c d stop left show ?thesis by (intro exI conjI)
  qed
  show ?thesis
    by (intro conjI impI) (erule A B C D)+
qed

lemma no_current_page_key:
  "\<forall>p t. ''searchCriteria[pageSize]=50'' \<noteq> p @ ''searchCriteria[currentPage]'' @ t"
proof -
  have "str_includes ''searchCriteria[pageSize]=50'' currentPageKey = False"
    by code_simp
  then show ?thesis
    by (simp only: str_includes_iff currentPageKey_def) blast
qed

theorem page_query_by_cases_witness:
  "set_current_page ''searchCriteria[pageSize]=50'' 3 =
     ''searchCriteria[pageSize]=50'' @ ''&searchCriteria[currentPage]='' @ show_nat 3
   \<and> (\<exists>pre d suf.
         ''searchCriteria[currentPage]=17&searchCriteria[pageSize]=50'' =
           pre @ ''searchCriteria[currentPage]='' @ d @ suf
         \<and> d \<noteq> [] \<and> list_all is_digit d
         \<and> (case suf of [] \<Rightarrow> True | x # xs \<Rightarrow> is_digit x = False)
         \<and> (\<forall>p x xs. ''searchCriteria[currentPage]=17&searchCriteria[pageSize]=50'' =
                 p @ ''searchCriteria[currentPage]='' @ x # xs \<and> is_digit x
               \<longrightarrow> length pre \<le> length p)
         \<and> (\<forall>k. set_current_page
                    ''searchCriteria[currentPage]=17&searchCriteria[pageSize]=50'' k =
                  pre @ ''searchCriteria[currentPage]='' @ show_nat k @ suf))"
proof -
  have digit: "is_digit CHR ''1''" by (simp add: is_digit_def)
  have "''searchCriteria[currentPage]=17&searchCriteria[pageSize]=50'' =
      [] @ ''searchCriteria[currentPage]='' @ CHR ''1'' # ''7&searchCriteria[pageSize]=50''"
    by simp
  with digit have numbered:
    "\<exists>p x xs. ''searchCriteria[currentPage]=17&searchCriteria[pageSize]=50'' =
        p @ ''searchCriteria[currentPage]='' @ x # xs \<and> is_digit x"
    by blast
  note first = page_query_by_cases
    [of "''x''" 3 "''searchCriteria[pageSize]=50''",
      THEN conjunct2, THEN conjunct2, THEN conjunct1, THEN mp, OF no_current_page_key]
  note second = page_query_by_cases
    [of "''x''" 3 "''searchCriteria[currentPage]=17&searchCriteria[pageSize]=50''",
      THEN conjunct2, THEN conjunct2, THEN conjunct2, THEN mp, OF numbered]
  from first second show ?thesis by (rule conjI)
qed

section \<open>A page size given by the caller\<close>

lemma page_50_url:
  "page_url ''/orders'' ''searchCriteria[pageSize]=50'' 1 =
     ''/orders?searchCriteria[pageSize]=50&searchCriteria[currentPage]=1''"
  by code_simp

lemma page_50_reply:
  "paged_server [0..<120 :: nat]
     [''/orders?searchCriteria[pageSize]=50&searchCriteria[currentPage]=1''] =
   Inr \<lparr>total_count = Some 120, items = ItemsArray [0..<50]\<rparr>"
  by code_simp

lemma page_100_urls:
  "page_url ''/orders'' ''status=x'' 1 =
     ''/orders?status=x&searchCriteria[pageSize]=100&searchCriteria[currentPage]=1''"
  "page_url ''/orders'' ''status=x'' 2 =
     ''/orders?status=x&searchCriteria[pageSize]=100&searchCriteria[currentPage]=2''"
  by code_simp+

lemma page_100_replies:
  "paged_server [0..<120 :: nat]
     [''/orders?status=x&searchCriteria[pageSize]=100&searchCriteria[currentPage]=1''] =
   Inr \<lparr>total_count = Some 120, items = ItemsArray [0..<100]\<rparr>"
  "paged_server [0..<120 :: nat]
     [''/orders?status=x&searchCriteria[pageSize]=100&searchCriteria[currentPage]=1'',
      ''/orders?status=x&searchCriteria[pageSize]=100&searchCriteria[currentPage]=2''] =
   Inr \<lparr>total_count = Some 120, items = ItemsArray [100..<120]\<rparr>"
  by code_simp+

text \<open>
  Claim C1. The engine should return every item of a collection that a server serves
  in consistent pages, also when the base criteria carry a page size other than 100.
  Evaluated on a collection of 120 items and the base criteria
  \<^verbatim>\<open>searchCriteria[pageSize]=50\<close>: the first page holds 50 items, which is fewer than
  the constant 100 that the loop compares with, so the engine returns those 50 items
  after one request and never asks for pages 2 and 3. With base criteria that leave the
  page size to the engine, the same server is read to the end in two requests.
\<close>

theorem caller_page_size_stops_early:
  "fetchAllPages (Suc n) (paged_server [0..<120]) ''/orders'' ''searchCriteria[pageSize]=50'' =
     (Returned [0..<50],
      [''/orders?searchCriteria[pageSize]=50&searchCriteria[currentPage]=1''])
   \<and> fetchAllPages (Suc (Suc n)) (paged_server [0..<120]) ''/orders'' ''status=x'' =
     (Returned [0..<120],
      [''/orders?status=x&searchCriteria[pageSize]=100&searchCriteria[currentPage]=1'',
       ''/orders?status=x&searchCriteria[pageSize]=100&searchCriteria[currentPage]=2''])"
proof -
  let ?s0 = "\<lparr>currentPage = 1, allItems = [], totalCount = 0\<rparr> :: nat loop_state"
  let ?s1 = "\<lparr>currentPage = 2, allItems = [0..<100], totalCount = 120\<rparr> :: nat loop_state"
  have o50: "on_response ?s0 \<lparr>total_count = Some 120, items = ItemsArray [0..<50]\<rparr> = Inl [0..<50]"
    by code_simp
  have early: "fetchAllPages (Suc n) (paged_server [0..<120]) ''/orders'' ''searchCriteria[pageSize]=50'' =
     (Returned [0..<50],
      [''/orders?searchCriteria[pageSize]=50&searchCriteria[currentPage]=1''])"
    using fetch_loop_return [of "paged_server [0..<120]" "[]" "''/orders''"
        "''searchCriteria[pageSize]=50''" ?s0 _ "[0..<50]" n, OF _ o50]
    by (simp only: fetchAllPages_def loop_state.simps page_50_url page_50_reply append_Nil)
  have o1: "on_response ?s0 \<lparr>total_count = Some 120, items = ItemsArray [0..<100]\<rparr> = Inr ?s1"
    by code_simp
  have o2: "on_response ?s1 \<lparr>total_count = Some 120, items = ItemsArray [100..<120]\<rparr> = Inl [0..<120]"
    by code_simp
  have "fetchAllPages (Suc (Suc n)) (paged_server [0..<120]) ''/orders'' ''status=x'' =
      fetch_loop (Suc n) (paged_server [0..<120]) ''/orders'' ''status=x'' ?s1
        [''/orders?status=x&searchCriteria[pageSize]=100&searchCriteria[currentPage]=1'']"
    using fetch_loop_continue [of "paged_server [0..<120]" "[]" "''/orders''"
        "''status=x''" ?s0 _ ?s1 "Suc n", OF _ o1]
    by (simp only: fetchAllPages_def loop_state.simps page_100_urls page_100_replies append_Nil)
  also have "\<dots> = (Returned [0..<120],
      [''/orders?status=x&searchCriteria[pageSize]=100&searchCriteria[currentPage]=1'',
       ''/orders?status=x&searchCriteria[pageSize]=100&searchCriteria[currentPage]=2''])"
    using fetch_loop_return [of "paged_server [0..<120]"
        "[''/orders?status=x&searchCriteria[pageSize]=100&searchCriteria[currentPage]=1'']"
        "''/orders''" "''status=x''" ?s1 _ "[0..<120]" n, OF _ o2]
    by (simp only: loop_state.simps page_100_urls page_100_replies append.simps)
  finally show ?thesis using early by (rule conjI [rotated])
qed


section \<open>Percent-encoding round trip\<close>



















lemma leading_not_trailing:
  "is_leading_surrogate u \<Longrightarrow> is_trailing_surrogate u = False"
  unfolding is_leading_surrogate_def is_trailing_surrogate_def by arith














section \<open>Determinism of the encoding\<close>

text \<open>
  Claim C9. The encoding is a function of its input and of nothing else: two calls of
  \<^verbatim>\<open>buildDateRangeFilter\<close> with the same field and with dates that the formatter
  renders to the same strings give the same result, character by character (or the
  same error). No clock, counter or earlier call enters the result.
\<close>

theorem date_range_filter_deterministic:
  assumes "field = field'"
    and "formatDateForMagento format startDate = formatDateForMagento format' startDate'"
    and "formatDateForMagento format endDate = formatDateForMagento format' endDate'"
  shows "buildDateRangeFilter format field startDate endDate =
         buildDateRangeFilter format' field' startDate' endDate'"
  using assms by (simp add: buildDateRangeFilter_def)

theorem date_range_filter_deterministic_witness:
  "buildDateRangeFilter ascii_date ''created_at'' 0 1 =
   buildDateRangeFilter ascii_date ''created_at'' 0 2"
  by (rule date_range_filter_deterministic)
    (simp_all add: formatDateForMagento_def ascii_date_def)

section \<open>Filter values survive the encoding\<close>








section \<open>Pages of the fixed size are fetched completely\<close>

lemma on_response_slice:
  fixes st :: "'a loop_state"
  assumes "currentPage st = Suc k"
    and "allItems st = take (pageSize * k) coll"
    and "k = 0 \<or> totalCount st = int (length coll)"
  shows "on_response st (page_slice coll k) =
     (if length coll \<le> pageSize * Suc k then Inl coll
      else Inr \<lparr>currentPage = Suc (Suc k), allItems = take (pageSize * Suc k) coll,
                totalCount = int (length coll)\<rparr>)"
proof -
  let ?page = "take pageSize (drop (pageSize * k) coll)"
  let ?all = "take (pageSize * Suc k) coll"
  have "take (pageSize * k + pageSize) coll = take (pageSize * k) coll @ ?page"
    by (rule take_add)
  moreover have "pageSize * Suc k = pageSize * k + pageSize" by simp
  ultimately have all: "allItems st @ ?page = ?all"
    using assms(2) by (simp only:)
  have total: "(if currentPage st = 1 then int (length coll) else totalCount st) = int (length coll)"
    using assms(1,3) by auto
  have gen: "on_response st (page_slice coll k) =
      (if int (length coll) \<le> int (length ?all) then Inl ?all
       else if truthy (ItemsArray ?page)
       then (if js_less (items_length (ItemsArray ?page)) pageSize then Inl ?all
             else Inr \<lparr>currentPage = currentPage st + 1, allItems = ?all,
                       totalCount = int (length coll)\<rparr>)
       else Inl ?all)"
    unfolding on_response_def page_slice_def Let_def
    by (simp only: search_result.select_convs items_field.case option.case all total)
  show ?thesis
  proof (cases "length coll \<le> pageSize * Suc k")
    case True
    then have "?all = coll" by simp
    then show ?thesis using True by (simp only: gen if_True order_refl)
  next
    case False
    then have len: "length ?all = pageSize * Suc k"
      and full: "length ?page = pageSize" by simp_all
    have "\<not> int (length coll) \<le> int (pageSize * Suc k)"
      using False by (simp only: of_nat_le_iff not_False_eq_True)
    then show ?thesis using False assms(1)
      by (simp only: gen len full truthy.simps items_length.simps js_less.simps
          if_True if_False less_irrefl Suc_eq_plus1 [symmetric])
  qed
qed

lemma fetch_loop_pages:
  fixes st :: "'a loop_state"
  assumes srv: "\<And>sent. srv (sent @ [page_url ep base (Suc (length sent))]) =
      Inr (page_slice coll (length sent))"
  shows "currentPage st = Suc (length sent) \<Longrightarrow>
    allItems st = take (pageSize * length sent) coll \<Longrightarrow>
    length sent = 0 \<or> totalCount st = int (length coll) \<Longrightarrow>
    length coll \<le> pageSize * (length sent + n) \<Longrightarrow> 0 < n \<Longrightarrow>
    \<exists>sent'. fetch_loop n srv ep base st sent = (Returned coll, sent')"
proof (induction n arbitrary: st sent)
  case 0
  then show ?case by simp
next
  case (Suc n)
  let ?k = "length sent"
  let ?sent = "sent @ [page_url ep base (currentPage st)]"
  have reply: "srv ?sent = Inr (page_slice coll ?k)"
    using srv [of sent] Suc.prems(1) by simp
  note o = on_response_slice [OF Suc.prems(1) Suc.prems(2) Suc.prems(3)]
  show ?case
  proof (cases "length coll \<le> pageSize * Suc ?k")
    case True
    with o have "on_response st (page_slice coll ?k) = Inl coll" by simp
    from fetch_loop_return [of srv sent ep base st, OF reply this] show ?thesis by blast
  next
    case False
    let ?st = "\<lparr>currentPage = Suc (Suc ?k), allItems = take (pageSize * Suc ?k) coll,
                totalCount = int (length coll)\<rparr>"
    from False o have "on_response st (page_slice coll ?k) = Inr ?st" by simp
    from fetch_loop_continue [of srv sent ep base st, OF reply this]
    have step: "fetch_loop (Suc n) srv ep base st sent = fetch_loop n srv ep base ?st ?sent" .
    have n: "0 < n" using False Suc.prems(4) by (cases n) auto
    have "\<exists>sent'. fetch_loop n srv ep base ?st ?sent = (Returned coll, sent')"
      using Suc.prems(4) n by (intro Suc.IH) simp_all
    with step show ?thesis by simp
  qed
qed

text \<open>
  Property X1. When the server answers the request for page \<open>k + 1\<close> with the
  \<open>k + 1\<close>-th slice of \<^verbatim>\<open>pageSize\<close> items of a collection and reports the size of the
  collection, the engine returns the whole collection, in order, as soon as the budget
  of iterations covers its pages.
\<close>

theorem fixed_page_size_fetches_all:
  assumes "\<And>sent. srv (sent @ [page_url ep base (Suc (length sent))]) =
      Inr (page_slice coll (length sent))"
    and "length coll \<le> pageSize * n" and "0 < n"
  shows "\<exists>sent. fetchAllPages n srv ep base = (Returned coll, sent)"
  unfolding fetchAllPages_def
  using assms(2,3) by (intro fetch_loop_pages [OF assms(1)]) simp_all

theorem fixed_page_size_fetches_all_witness:
  "\<exists>sent. fetchAllPages 3 (counting_server [0..<250 :: nat]) ''/orders'' ''status=x'' =
     (Returned [0..<250], sent)"
  by (rule fixed_page_size_fetches_all) (simp_all add: counting_server_def pageSize_def)


end
